theory Spec2Isabelle
  imports Main
begin

section \<open>The in-memory queue of \<open>ex04_async_queue_processor\<close>\<close>

text \<open>
  The development follows \<open>solution_queue_processor.py\<close>. A message is a Python
  \<open>str\<close>; the dataclass \<open>InMemoryQueue\<close> has the single field \<open>messages\<close>, a list
  that \<open>receive_batch\<close> mutates in place. Mutation is explicit state passing: every
  operation returns the queue as it is afterwards.
\<close>

type_synonym message = string

record InMemoryQueue =
  messages :: "message list"

text \<open>
  Exceptions are values. \<open>CancelledError\<close> is \<open>asyncio.CancelledError\<close>; every other
  exception, which only a handler can raise, is \<open>HandlerError\<close> with its text.
\<close>

datatype exn = CancelledError | HandlerError string

text \<open>
  An \<open>await\<close> is a suspension point. What the supervisor of the task does while the
  coroutine is suspended there is a \<open>signal\<close>: \<open>Resume\<close> when the awaited operation
  completes undisturbed, \<open>Cancel\<close> when \<open>task.cancel()\<close> arrives first and cancels what
  is awaited.
\<close>

datatype signal = Resume | Cancel

text \<open>\<open>await asyncio.sleep(d)\<close>: returns \<open>None\<close>, or raises on cancellation.\<close>

fun sleep :: "signal \<Rightarrow> exn + unit" where
  "sleep Resume = Inr ()"
| "sleep Cancel = Inl CancelledError"

text \<open>
  \<open>InMemoryQueue.receive_batch\<close> (lines 25 to 43). The result is the raised exception
  or the returned list, paired with the queue after the call. For a positive
  \<open>batch_size\<close> the slice \<open>self.messages[:batch_size]\<close> is \<open>take\<close> and
  \<open>del self.messages[:batch_size]\<close> is \<open>drop\<close>; a slice bound beyond the end of the
  list is clamped by Python, as \<open>take\<close> and \<open>drop\<close> do. A non-positive \<open>batch_size\<close>
  never reaches the slices.
\<close>

definition receive_batch ::
  "signal \<Rightarrow> int \<Rightarrow> InMemoryQueue \<Rightarrow> (exn + message list) \<times> InMemoryQueue" where
  "receive_batch s batch_size q =
     (case sleep s of
        Inl e \<Rightarrow> (Inl e, q)
      | Inr _ \<Rightarrow>
          if batch_size \<le> 0 \<or> messages q = [] then (Inr [], q)
          else (Inr (take (nat batch_size) (messages q)),
                q\<lparr>messages := drop (nat batch_size) (messages q)\<rparr>))"

text \<open>
  A sequence of \<open>receive_batch\<close> calls on one queue, each with its own signal and
  batch size: the results of the calls in order, and the queue after the last one.
\<close>

fun receive_batches ::
  "(signal \<times> int) list \<Rightarrow> InMemoryQueue \<Rightarrow> (exn + message list) list \<times> InMemoryQueue" where
  "receive_batches [] q = ([], q)"
| "receive_batches ((s, n) # calls) q =
     (case receive_batch s n q of
        (r, q') \<Rightarrow> (case receive_batches calls q' of (rs, q'') \<Rightarrow> (r # rs, q'')))"

text \<open>The messages that a sequence of calls handed out, in the order of delivery.\<close>

fun delivered :: "(exn + message list) list \<Rightarrow> message list" where
  "delivered [] = []"
| "delivered (Inl e # rs) = delivered rs"
| "delivered (Inr batch # rs) = batch @ delivered rs"

section \<open>Handlers and \<open>asyncio.gather\<close>\<close>

text \<open>
  Time is logical: a clock of ticks of 0.1 s, the latency \<open>asyncio.sleep(0.1)\<close> of
  \<open>receive_batch\<close> being one tick.
\<close>

definition fetch_latency :: nat where
  "fetch_latency = 1"

text \<open>
  \<open>handler(message)\<close> creates a coroutine, which \<open>asyncio.gather\<close> wraps in a task of
  its own. What matters of such a task is when it reaches a terminal state, in ticks
  after the dispatch started it (\<open>finish\<close>), and how: \<open>outcome\<close> is \<open>None\<close> when the
  handler returns and \<open>Some e\<close> when it raises \<open>e\<close>. That is the invocation left
  undisturbed. When the join is cancelled, \<open>gather\<close> cancels the tasks that are still
  running, and \<open>on_cancel\<close> is the answer of the invocation: \<open>Some (d, e)\<close> when it
  ends with the exception \<open>e\<close>, \<open>d\<close> ticks after the cancellation (\<open>CancelledError\<close>
  at once for a handler that lets the cancellation through its \<open>await\<close>, another
  exception for a handler that raises while it cleans up), and \<open>None\<close> when it raises
  nothing: it has returned before the cancellation arrived, or it catches the
  cancellation and returns. A handler is any function from the message to such a task.
\<close>

record task =
  finish :: nat
  outcome :: "exn option"
  on_cancel :: "(nat \<times> exn) option"

type_synonym handler = "message \<Rightarrow> task"

text \<open>
  \<open>asyncio.gather(*tasks)\<close> is called with the default \<open>return_exceptions=False\<close>. The
  standard library documents: the first raised exception is immediately propagated to
  the task that awaits on \<open>gather()\<close>; other awaitables in the sequence are not cancelled
  and continue to run. \<open>first_failure\<close> is the failing task that finishes first, with
  its finishing time; tasks that fail at the same tick are taken in batch order, the
  order in which the event loop runs their completion callbacks.
\<close>

fun first_failure :: "task list \<Rightarrow> (nat \<times> exn) option" where
  "first_failure [] = None"
| "first_failure (k # ks) =
     (case outcome k of
        None \<Rightarrow> first_failure ks
      | Some e \<Rightarrow>
          (case first_failure ks of
             None \<Rightarrow> Some (finish k, e)
           | Some (t, e') \<Rightarrow> if finish k \<le> t then Some (finish k, e) else Some (t, e')))"

text \<open>When every task succeeds, \<open>gather\<close> completes when the last one has.\<close>

definition join_time :: "task list \<Rightarrow> nat" where
  "join_time ks = fold max (map finish ks) 0"

text \<open>
  The result of an undisturbed \<open>await asyncio.gather(*tasks)\<close>: the exception raised or
  the list of the results (each handler returns \<open>None\<close>), and the tick, counted from the
  start of the dispatch, at which the awaiting coroutine has it.
\<close>

definition gather :: "task list \<Rightarrow> (exn + unit list) \<times> nat" where
  "gather ks =
     (case first_failure ks of
        Some (t, e) \<Rightarrow> (Inl e, t)
      | None \<Rightarrow> (Inr (map (\<lambda>k. ()) ks), join_time ks))"

text \<open>
  A cancellation of the join. \<open>gather\<close> passes it on to its tasks, and the \<open>await\<close>
  raises what they answer: the exception of the task that ends with one first, tasks
  that end at the same tick being taken in batch order, the order in which they were
  cancelled; this is \<open>CancelledError\<close> when that task was cancelled and the exception of
  the handler when it raised another one. When no task ends with an exception, the
  cancelled \<open>gather\<close> raises \<open>CancelledError\<close> itself.
\<close>

fun first_answer :: "task list \<Rightarrow> (nat \<times> exn) option" where
  "first_answer [] = None"
| "first_answer (k # ks) =
     (case on_cancel k of
        None \<Rightarrow> first_answer ks
      | Some (d, e) \<Rightarrow>
          (case first_answer ks of
             None \<Rightarrow> Some (d, e)
           | Some (d', e') \<Rightarrow> if d \<le> d' then Some (d, e) else Some (d', e')))"

definition cancelled_join :: "task list \<Rightarrow> exn" where
  "cancelled_join ks = (case first_answer ks of None \<Rightarrow> CancelledError | Some (d, e) \<Rightarrow> e)"

text \<open>The \<open>await\<close> of line 69 under a signal.\<close>

fun await_gather :: "signal \<Rightarrow> task list \<Rightarrow> exn + unit list" where
  "await_gather Resume ks = fst (gather ks)"
| "await_gather Cancel ks = Inl (cancelled_join ks)"

text \<open>
  Lines 68 and 69 of \<open>process_queue_forever\<close>, the dispatch of a batch: one handler
  invocation per message, in batch order, then the join. The model returns the
  invocations made and what the \<open>await\<close> gives.
\<close>

definition dispatch :: "signal \<Rightarrow> handler \<Rightarrow> message list \<Rightarrow> task list \<times> (exn + unit list)" where
  "dispatch s h batch = (let tasks = map h batch in (tasks, await_gather s tasks))"

section \<open>The polling loop\<close>

text \<open>
  \<open>process_queue_forever\<close> (lines 46 to 72) is a coroutine with three suspension
  points: the \<open>await\<close> inside \<open>receive_batch\<close> (line 62), the back-off sleep (line 64)
  and the join of the dispatch (line 69). Its state is the point it is suspended at,
  the queue, the clock, and the trace of what it has started so far: each call of
  \<open>receive_batch\<close>, each back-off and each dispatch with the tick at which it started.
\<close>

datatype completion = Returned | Raised exn

datatype point = In_fetch | In_backoff | In_gather "task list" | Stopped completion

datatype event = Fetch nat | Backoff nat | Dispatch nat "task list"

record coroutine =
  point :: point
  queue :: InMemoryQueue
  now :: nat
  trace :: "event list"

text \<open>
  The \<open>try\<close> statement around the loop (lines 60, 70 to 72): \<open>CancelledError\<close> is
  caught and the function returns; any other exception leaves the function.
\<close>

definition except :: "exn \<Rightarrow> coroutine \<Rightarrow> coroutine" where
  "except e c = c\<lparr>point := Stopped (if e = CancelledError then Returned else Raised e)\<rparr>"

text \<open>The head of the loop (line 62): \<open>receive_batch\<close> is called and suspends.\<close>

definition enter_fetch :: "coroutine \<Rightarrow> coroutine" where
  "enter_fetch c = c\<lparr>point := In_fetch, trace := trace c @ [Fetch (now c)]\<rparr>"

text \<open>
  One step of the coroutine: it is resumed at its suspension point under a signal and
  runs to the next suspension point, or out of the function. \<open>poll\<close> is
  \<open>poll_interval_seconds\<close> in ticks.
\<close>

definition step :: "handler \<Rightarrow> int \<Rightarrow> nat \<Rightarrow> signal \<Rightarrow> coroutine \<Rightarrow> coroutine" where
  "step h batch_size poll s c =
     (case point c of
        Stopped r \<Rightarrow> c
      | In_fetch \<Rightarrow>
          (case receive_batch s batch_size (queue c) of
             (Inl e, q') \<Rightarrow> except e (c\<lparr>queue := q'\<rparr>)
           | (Inr batch, q') \<Rightarrow>
               let t = now c + fetch_latency in
               if batch = []
               then c\<lparr>point := In_backoff, queue := q', now := t,
                      trace := trace c @ [Backoff t]\<rparr>
               else c\<lparr>point := In_gather (map h batch), queue := q', now := t,
                      trace := trace c @ [Dispatch t (map h batch)]\<rparr>)
      | In_backoff \<Rightarrow>
          (case sleep s of
             Inl e \<Rightarrow> except e c
           | Inr u \<Rightarrow> enter_fetch (c\<lparr>now := now c + poll\<rparr>))
      | In_gather ks \<Rightarrow>
          (case await_gather s ks of
             Inl e \<Rightarrow> except e c
           | Inr rs \<Rightarrow> enter_fetch (c\<lparr>now := now c + join_time ks\<rparr>)))"

text \<open>The coroutine when the function has been called and runs to its first \<open>await\<close>.\<close>

definition start :: "InMemoryQueue \<Rightarrow> coroutine" where
  "start q = enter_fetch \<lparr>point = In_fetch, queue = q, now = 0, trace = []\<rparr>"

text \<open>
  A run of \<open>process_queue_forever(queue, handler, batch_size, poll_interval_seconds)\<close>
  under the signals \<open>env\<close>, one for each suspension point the run reaches, in order.
  The loop has no exit of its own, so a finite \<open>env\<close> without an end of the run leaves
  the coroutine suspended: the result is \<open>None\<close> then, and \<open>Some\<close> of how the function
  completed otherwise.
\<close>

definition run :: "signal list \<Rightarrow> InMemoryQueue \<Rightarrow> handler \<Rightarrow> int \<Rightarrow> nat \<Rightarrow> coroutine" where
  "run env q h batch_size poll = fold (step h batch_size poll) env (start q)"

definition process_queue_forever ::
  "signal list \<Rightarrow> InMemoryQueue \<Rightarrow> handler \<Rightarrow> int \<Rightarrow> nat \<Rightarrow> completion option" where
  "process_queue_forever env q h batch_size poll =
     (case point (run env q h batch_size poll) of
        Stopped r \<Rightarrow> Some r
      | _ \<Rightarrow> None)"

text \<open>
  Every invocation of an earlier dispatch in a trace has reached its terminal state by
  the tick \<open>T\<close>.
\<close>

definition settled_by :: "nat \<Rightarrow> event list \<Rightarrow> bool" where
  "settled_by T tr \<longleftrightarrow>
     (\<forall>t0 ks k. Dispatch t0 ks \<in> set tr \<and> k \<in> set ks \<longrightarrow> t0 + finish k \<le> T)"

text \<open>
  A trace is free of overlap when every \<open>receive_batch\<close> call in it starts after all
  invocations of the dispatches before it have reached their terminal state. The
  invariant of the coroutine adds what holds at its present suspension point.
\<close>

definition overlap_free :: "event list \<Rightarrow> bool" where
  "overlap_free tr \<longleftrightarrow> (\<forall>pre t post. tr = pre @ Fetch t # post \<longrightarrow> settled_by t pre)"

definition invariant :: "coroutine \<Rightarrow> bool" where
  "invariant c \<longleftrightarrow>
     overlap_free (trace c) \<and>
     (case point c of
        Stopped r \<Rightarrow> True
      | In_gather ks \<Rightarrow> (\<exists>tr. trace c = tr @ [Dispatch (now c) ks] \<and> settled_by (now c) tr)
      | _ \<Rightarrow> settled_by (now c) (trace c))"

text \<open>
  \<open>example_handler\<close> (lines 75 to 78) sleeps 0.2 s, two ticks, prints and returns. It
  catches nothing, so a cancellation at its \<open>await\<close> ends it with \<open>CancelledError\<close>.
\<close>

definition example_handler :: handler where
  "example_handler m = \<lparr>finish = 2, outcome = None,
        on_cancel = Some (0, CancelledError)\<rparr>"

section \<open>Properties of \<open>receive_batch\<close>\<close>

lemma receive_batch_Resume:
  "receive_batch Resume n q =
     (if n \<le> 0 \<or> messages q = [] then (Inr [], q)
      else (Inr (take (nat n) (messages q)), q\<lparr>messages := drop (nat n) (messages q)\<rparr>))"
  by (simp add: receive_batch_def)

lemma receive_batch_Cancel: "receive_batch Cancel n q = (Inl CancelledError, q)"
  by (simp add: receive_batch_def)

text \<open>
  Claim C1. For a non-negative \<open>batch_size\<close> and a pending sequence of length \<open>L\<close>, a
  call that is not cancelled returns the first \<open>min batch_size L\<close> pending messages in
  their order, and leaves the other \<open>L - min batch_size L\<close> messages pending, in their
  order.
\<close>

theorem receive_batch_front:
  assumes "0 \<le> n"
  shows "receive_batch Resume n q =
           (Inr (take (min (nat n) (length (messages q))) (messages q)),
            q\<lparr>messages := drop (min (nat n) (length (messages q))) (messages q)\<rparr>)
         \<and> length (take (min (nat n) (length (messages q))) (messages q))
             = min (nat n) (length (messages q))
         \<and> length (drop (min (nat n) (length (messages q))) (messages q))
             = length (messages q) - min (nat n) (length (messages q))"
proof -
  have t: "take (min (nat n) (length (messages q))) (messages q) = take (nat n) (messages q)"
    by (simp add: min_def)
  have d: "drop (min (nat n) (length (messages q))) (messages q) = drop (nat n) (messages q)"
    by (simp add: min_def)
  have "receive_batch Resume n q =
          (Inr (take (nat n) (messages q)), q\<lparr>messages := drop (nat n) (messages q)\<rparr>)"
    using assms by (cases "n = 0") (auto simp: receive_batch_Resume)
  moreover have "length (take (nat n) (messages q)) = min (nat n) (length (messages q))"
    by (simp add: min.commute)
  moreover have "length (drop (nat n) (messages q))
                   = length (messages q) - min (nat n) (length (messages q))"
    by (simp add: min_def)
  ultimately show ?thesis
    unfolding t d by blast
qed

theorem receive_batch_front_witness:
  "receive_batch Resume 2 \<lparr>messages = [''a'', ''b'', ''c'']\<rparr> =
     (Inr [''a'', ''b''], \<lparr>messages = [''c'']\<rparr>)
   \<and> receive_batch Resume 5 \<lparr>messages = [''a'', ''b'', ''c'']\<rparr> =
     (Inr [''a'', ''b'', ''c''], \<lparr>messages = []\<rparr>)"
  using receive_batch_front [of 2 "\<lparr>messages = [''a'', ''b'', ''c'']\<rparr>"]
        receive_batch_front [of 5 "\<lparr>messages = [''a'', ''b'', ''c'']\<rparr>"]
  by simp

text \<open>
  Claim C5. For \<open>batch_size \<le> 0\<close> and any pending sequence, the call returns the empty
  list and the queue is as before; cancelled or not, the call leaves the queue as it was.
\<close>

theorem receive_batch_nonpositive:
  assumes "n \<le> 0"
  shows "receive_batch Resume n q = (Inr [], q) \<and> snd (receive_batch s n q) = q"
  using assms by (cases s) (simp_all add: receive_batch_Resume receive_batch_Cancel)

theorem receive_batch_nonpositive_witness:
  "receive_batch Resume (- 3) \<lparr>messages = [''a'', ''b'']\<rparr> = (Inr [], \<lparr>messages = [''a'', ''b'']\<rparr>)
   \<and> receive_batch Resume 0 \<lparr>messages = [''a'', ''b'']\<rparr> = (Inr [], \<lparr>messages = [''a'', ''b'']\<rparr>)"
  using receive_batch_nonpositive [of "- 3" "\<lparr>messages = [''a'', ''b'']\<rparr>" Resume]
        receive_batch_nonpositive [of 0 "\<lparr>messages = [''a'', ''b'']\<rparr>" Resume]
  by simp

text \<open>
  Claim C7. For every integer \<open>batch_size\<close> and every queue, a call that is not
  cancelled returns a list; the function raises nothing of its own: the only exception
  that leaves it is the \<open>CancelledError\<close> of a cancellation at its suspension point.
\<close>

theorem receive_batch_total:
  "(\<exists>batch q'. receive_batch Resume n q = (Inr batch, q'))
   \<and> (\<forall>s e q'. receive_batch s n q = (Inl e, q') \<longrightarrow> s = Cancel \<and> e = CancelledError)"
proof
  show "\<exists>batch q'. receive_batch Resume n q = (Inr batch, q')"
    by (simp add: receive_batch_Resume)
next
  show "\<forall>s e q'. receive_batch s n q = (Inl e, q') \<longrightarrow> s = Cancel \<and> e = CancelledError"
  proof (intro allI impI)
    fix s e q'
    assume "receive_batch s n q = (Inl e, q')"
    then show "s = Cancel \<and> e = CancelledError"
      by (cases s) (auto simp: receive_batch_Resume receive_batch_Cancel split: if_splits)
  qed
qed

theorem receive_batch_total_witness:
  "receive_batch Cancel 2 \<lparr>messages = [''a'']\<rparr> = (Inl CancelledError, \<lparr>messages = [''a'']\<rparr>)
   \<and> (\<exists>batch q'. receive_batch Resume (- 7) \<lparr>messages = [''a'']\<rparr> = (Inr batch, q'))
   \<and> (\<exists>batch q'. receive_batch Resume 1000000 \<lparr>messages = [''a'']\<rparr> = (Inr batch, q'))"
  using receive_batch_total [of 2 "\<lparr>messages = [''a'']\<rparr>"]
        receive_batch_total [of "- 7" "\<lparr>messages = [''a'']\<rparr>"]
        receive_batch_total [of 1000000 "\<lparr>messages = [''a'']\<rparr>"]
  by (simp add: receive_batch_Cancel)

text \<open>
  Claim C10. For every integer \<open>batch_size\<close> and every queue, the list a call returns
  followed by the messages pending after the call is the sequence of messages pending
  before it.
\<close>

theorem receive_batch_conserves:
  "\<exists>batch q'. receive_batch Resume n q = (Inr batch, q') \<and> batch @ messages q' = messages q"
  by (simp add: receive_batch_Resume)

lemma receive_batch_delivered:
  "receive_batch s n q = (r, q') \<Longrightarrow> delivered [r] @ messages q' = messages q"
  by (cases s) (auto simp: receive_batch_Resume receive_batch_Cancel split: if_splits)

lemma delivered_Cons: "delivered (r # rs) = delivered [r] @ delivered rs"
  by (cases r) simp_all

lemma receive_batches_delivered:
  "receive_batches calls q = (rs, q') \<Longrightarrow> delivered rs @ messages q' = messages q"
proof (induction calls arbitrary: q rs q')
  case Nil
  then show ?case by simp
next
  case (Cons c calls)
  obtain s n where c: "c = (s, n)" by (cases c)
  obtain r q1 where r: "receive_batch s n q = (r, q1)" by (cases "receive_batch s n q")
  obtain rs1 q2 where rs1: "receive_batches calls q1 = (rs1, q2)"
    by (cases "receive_batches calls q1")
  from Cons.prems c r rs1 have eq: "rs = r # rs1" "q' = q2" by simp_all
  have "delivered rs1 @ messages q2 = messages q1" by (rule Cons.IH [OF rs1])
  moreover have "delivered [r] @ messages q1 = messages q" by (rule receive_batch_delivered [OF r])
  ultimately show ?case unfolding eq by (subst delivered_Cons) simp
qed

text \<open>
  Claim C6. For every sequence of \<open>receive_batch\<close> calls on one queue, what the calls
  returned, in order, followed by what is pending after the last call, is the sequence
  pending before the first: every returned message has left the pending sequence when
  its call returns, and no position of the pending sequence is handed out twice. Where
  the pending messages are pairwise different, so are the delivered ones, and none of
  them is still pending.
\<close>

theorem no_redelivery:
  assumes "receive_batches calls q = (rs, q')"
  shows "delivered rs @ messages q' = messages q
         \<and> (distinct (messages q) \<longrightarrow>
              distinct (delivered rs) \<and> set (delivered rs) \<inter> set (messages q') = {})"
proof -
  have eq: "delivered rs @ messages q' = messages q" by (rule receive_batches_delivered [OF assms])
  moreover have "distinct (delivered rs) \<and> set (delivered rs) \<inter> set (messages q') = {}"
    if "distinct (messages q)"
    using that unfolding eq [symmetric] by simp
  ultimately show ?thesis by blast
qed

theorem no_redelivery_witness:
  "receive_batches [(Resume, 2), (Resume, 0), (Cancel, 3), (Resume, 2), (Resume, 5)]
     \<lparr>messages = [''a'', ''b'', ''c'', ''d'', ''e'']\<rparr>
     = ([Inr [''a'', ''b''], Inr [], Inl CancelledError, Inr [''c'', ''d''], Inr [''e'']],
        \<lparr>messages = []\<rparr>)
   \<and> distinct [''a'', ''b'', ''c'', ''d'', ''e'']
   \<and> distinct (delivered [Inr [''a'', ''b''], Inr [], Inl CancelledError, Inr [''c'', ''d''],
                            Inr [''e'']])"
  using no_redelivery [of "[(Resume, 2), (Resume, 0), (Cancel, 3), (Resume, 2), (Resume, 5)]"
      "\<lparr>messages = [''a'', ''b'', ''c'', ''d'', ''e'']\<rparr>"
      "[Inr [''a'', ''b''], Inr [], Inl CancelledError, Inr [''c'', ''d''], Inr [''e'']]"
      "\<lparr>messages = []\<rparr>"]
  by (simp add: receive_batch_Resume receive_batch_Cancel)

section \<open>Properties of the dispatch\<close>

lemma first_failure_None: "first_failure ks = None \<longleftrightarrow> (\<forall>k\<in>set ks. outcome k = None)"
  by (induction ks) (auto split: option.splits)

lemma first_failure_Some:
  "first_failure ks = Some (t, e) \<Longrightarrow>
     (\<exists>k\<in>set ks. outcome k = Some e \<and> finish k = t)
     \<and> (\<forall>k'\<in>set ks. outcome k' \<noteq> None \<longrightarrow> t \<le> finish k')"
proof (induction ks arbitrary: t e)
  case Nil
  then show ?case by simp
next
  case (Cons k ks)
  show ?case
  proof (cases "outcome k")
    case None
    with Cons.prems have "first_failure ks = Some (t, e)" by simp
    from Cons.IH [OF this] None show ?thesis by auto
  next
    case (Some e0)
    show ?thesis
    proof (cases "first_failure ks")
      case None
      then have "\<forall>k'\<in>set ks. outcome k' = None" by (simp add: first_failure_None)
      with Cons.prems Some None show ?thesis by auto
    next
      case (Some p)
      obtain t1 e1 where p: "p = (t1, e1)" by (cases p)
      from Cons.IH [of t1 e1] Some p
      have ih: "(\<exists>k\<in>set ks. outcome k = Some e1 \<and> finish k = t1)
                \<and> (\<forall>k'\<in>set ks. outcome k' \<noteq> None \<longrightarrow> t1 \<le> finish k')" by simp
      show ?thesis
      proof (cases "finish k \<le> t1")
        case True
        with Cons.prems \<open>outcome k = Some e0\<close> Some p have "t = finish k" "e = e0" by simp_all
        with ih True \<open>outcome k = Some e0\<close> show ?thesis by fastforce
      next
        case False
        with Cons.prems \<open>outcome k = Some e0\<close> Some p have "t = t1" "e = e1" by simp_all
        with ih False \<open>outcome k = Some e0\<close> show ?thesis by fastforce
      qed
    qed
  qed
qed

lemma gather_success:
  "\<forall>k\<in>set ks. outcome k = None \<Longrightarrow> gather ks = (Inr (map (\<lambda>k. ()) ks), join_time ks)"
  using first_failure_None [of ks] by (simp add: gather_def)

lemma finish_le_join_time: "k \<in> set ks \<Longrightarrow> finish k \<le> join_time ks"
proof -
  assume k: "k \<in> set ks"
  have "join_time ks = Max (set (0 # map finish ks))"
    unfolding join_time_def by (simp only: Max.set_eq_fold)
  moreover have "finish k \<in> set (0 # map finish ks)" using k by simp
  ultimately show ?thesis by (metis Max_ge List.finite_set)
qed

text \<open>
  Claim C2, as the code has it. When a batch is dispatched without cancellation and
  some handler invocation fails, the dispatch, which has made one invocation for each
  message of the batch, reports a failure at the tick at which the first failing
  invocation reaches its terminal state, which need not be after every invocation of
  the batch has reached its own: every invocation that reached its terminal state
  before that tick has succeeded, and the tick does not depend on the invocations that
  reach theirs later. The failure reported is that first one in the order in which the
  invocations reached a terminal state: no failing invocation finishes earlier.
\<close>

theorem dispatch_reports_first_failure:
  assumes "m0 \<in> set batch" and "outcome (h m0) \<noteq> None"
  shows "fst (dispatch Resume h batch) = map h batch
         \<and> (\<exists>k\<in>set (map h batch). \<exists>e.
               outcome k = Some e
               \<and> snd (dispatch Resume h batch) = Inl e
               \<and> gather (map h batch) = (Inl e, finish k)
               \<and> (\<forall>k'\<in>set (map h batch). outcome k' \<noteq> None \<longrightarrow> finish k \<le> finish k')
               \<and> (\<forall>k'\<in>set (map h batch). finish k' < finish k \<longrightarrow> outcome k' = None))"
proof -
  define ks where "ks = map h batch"
  have d: "dispatch Resume h batch = (ks, fst (gather ks))"
    by (simp add: dispatch_def ks_def Let_def)
  from assms have "\<exists>k\<in>set ks. outcome k \<noteq> None" by (auto simp: ks_def)
  then have "first_failure ks \<noteq> None" by (auto simp: first_failure_None)
  then obtain t e where ff: "first_failure ks = Some (t, e)" by auto
  from first_failure_Some [OF ff]
  obtain k where k: "k \<in> set ks" "outcome k = Some e" "finish k = t"
    and m: "\<forall>k'\<in>set ks. outcome k' \<noteq> None \<longrightarrow> t \<le> finish k'" by blast
  have g: "gather ks = (Inl e, finish k)" using ff k by (simp add: gather_def)
  have early: "\<forall>k'\<in>set ks. finish k' < finish k \<longrightarrow> outcome k' = None"
    using m k(3) by (metis not_le)
  have "\<exists>k\<in>set ks. \<exists>e. outcome k = Some e \<and> snd (dispatch Resume h batch) = Inl e
          \<and> gather ks = (Inl e, finish k)
          \<and> (\<forall>k'\<in>set ks. outcome k' \<noteq> None \<longrightarrow> finish k \<le> finish k')
          \<and> (\<forall>k'\<in>set ks. finish k' < finish k \<longrightarrow> outcome k' = None)"
    using k g m early unfolding d by auto
  moreover have "fst (dispatch Resume h batch) = ks" by (simp add: d)
  ultimately show ?thesis unfolding ks_def by blast
qed

theorem dispatch_reports_first_failure_witness:
  "dispatch Resume
     (\<lambda>m. if m = ''bad'' then \<lparr>finish = 3, outcome = Some (HandlerError ''boom''),
           on_cancel = Some (0, CancelledError)\<rparr>
           else if m = ''worse'' then \<lparr>finish = 1, outcome = Some (HandlerError ''bang''),
                 on_cancel = Some (0, CancelledError)\<rparr>
           else \<lparr>finish = 5, outcome = None, on_cancel = Some (0, CancelledError)\<rparr>)
     [''slow'', ''bad'', ''worse'']
   = ([\<lparr>finish = 5, outcome = None, on_cancel = Some (0, CancelledError)\<rparr>,
       \<lparr>finish = 3, outcome = Some (HandlerError ''boom''),
             on_cancel = Some (0, CancelledError)\<rparr>,
       \<lparr>finish = 1, outcome = Some (HandlerError ''bang''),
             on_cancel = Some (0, CancelledError)\<rparr>],
      Inl (HandlerError ''bang''))"
  using dispatch_reports_first_failure [of "''bad''" "[''slow'', ''bad'', ''worse'']"
      "\<lambda>m. if m = ''bad'' then \<lparr>finish = 3, outcome = Some (HandlerError ''boom''),
            on_cancel = Some (0, CancelledError)\<rparr>
           else if m = ''worse'' then \<lparr>finish = 1, outcome = Some (HandlerError ''bang''),
                 on_cancel = Some (0, CancelledError)\<rparr>
           else \<lparr>finish = 5, outcome = None, on_cancel = Some (0, CancelledError)\<rparr>"]
  by (simp add: dispatch_def gather_def)

text \<open>
  Claim C2, as the specification states it, fails: with one invocation that raises at
  tick 1 and one that returns at tick 5, the dispatch reports the failure at tick 1,
  four ticks before the second invocation reaches its terminal state.
\<close>

theorem dispatch_waits_for_all_counterexample:
  "await_gather Resume [\<lparr>finish = 1, outcome = Some (HandlerError ''boom''),
        on_cancel = Some (0, CancelledError)\<rparr>,
                        \<lparr>finish = 5, outcome = None,
                              on_cancel = Some (0, CancelledError)\<rparr>] = Inl (HandlerError ''boom'')
   \<and> snd (gather [\<lparr>finish = 1, outcome = Some (HandlerError ''boom''),
         on_cancel = Some (0, CancelledError)\<rparr>,
                  \<lparr>finish = 5, outcome = None,
                        on_cancel = Some (0, CancelledError)\<rparr>]) = 1
   \<and> \<not> finish \<lparr>finish = 5, outcome = None,
         on_cancel = Some (0, CancelledError)\<rparr>
         \<le> snd (gather [\<lparr>finish = 1, outcome = Some (HandlerError ''boom''),
               on_cancel = Some (0, CancelledError)\<rparr>,
                         \<lparr>finish = 5, outcome = None,
                               on_cancel = Some (0, CancelledError)\<rparr>])"
  by (simp add: gather_def)

text \<open>
  Claim C9. For a batch of \<open>K\<close> messages on each of which the handler succeeds, the
  dispatch makes \<open>K\<close> handler invocations, one for each message in batch order, and
  completes without an exception, with one result for each.
\<close>

theorem dispatch_all_succeed:
  assumes "\<forall>m\<in>set batch. outcome (h m) = None"
  shows "length (fst (dispatch Resume h batch)) = length batch
         \<and> fst (dispatch Resume h batch) = map h batch
         \<and> snd (dispatch Resume h batch) = Inr (replicate (length batch) ())"
proof -
  have "\<forall>k\<in>set (map h batch). outcome k = None" using assms by simp
  from gather_success [OF this] show ?thesis
    by (simp add: dispatch_def map_replicate_const)
qed

theorem dispatch_all_succeed_witness:
  "outcome (example_handler ''a'') = None
   \<and> length (fst (dispatch Resume example_handler [''a'', ''b'', ''c''])) = 3
   \<and> snd (dispatch Resume example_handler [''a'', ''b'', ''c'']) = Inr [(), (), ()]"
  using dispatch_all_succeed [of "[''a'', ''b'', ''c'']" example_handler]
  by (simp add: example_handler_def)

section \<open>Properties of the polling loop\<close>

lemma step_Stopped: "point c = Stopped r \<Longrightarrow> step h bs poll s c = c"
  by (simp add: step_def)

lemma fold_step_Stopped: "point c = Stopped r \<Longrightarrow> fold (step h bs poll) env c = c"
  by (induction env) (simp_all add: step_Stopped)

lemma run_append: "run (pre @ env) q h bs poll = fold (step h bs poll) env (run pre q h bs poll)"
  by (simp add: run_def)









lemma step_gather_failure:
  "point c = In_gather ks \<Longrightarrow> await_gather s ks = Inl e \<Longrightarrow> step h bs poll s c = except e c"
  by (simp add: step_def)

lemma settled_by_mono: "settled_by T tr \<Longrightarrow> T \<le> T' \<Longrightarrow> settled_by T' tr"
  unfolding settled_by_def by (meson le_trans)

lemma settled_by_snoc_Fetch [simp]: "settled_by T (tr @ [Fetch t]) = settled_by T tr"
  by (simp add: settled_by_def)

lemma settled_by_snoc_Backoff [simp]: "settled_by T (tr @ [Backoff t]) = settled_by T tr"
  by (simp add: settled_by_def)

lemma settled_by_snoc_Dispatch:
  "settled_by T (tr @ [Dispatch t0 ks]) \<longleftrightarrow> settled_by T tr \<and> (\<forall>k\<in>set ks. t0 + finish k \<le> T)"
  unfolding settled_by_def by auto

lemma overlap_free_snoc:
  assumes "overlap_free tr" and "\<And>t. e = Fetch t \<Longrightarrow> settled_by t tr"
  shows "overlap_free (tr @ [e])"
  unfolding overlap_free_def
proof (intro allI impI)
  fix pre t post
  assume eq: "tr @ [e] = pre @ Fetch t # post"
  show "settled_by t pre"
  proof (cases post rule: rev_cases)
    case Nil
    with eq have "tr = pre" "e = Fetch t" by simp_all
    with assms(2) show ?thesis by simp
  next
    case (snoc post' x)
    with eq have "tr = pre @ Fetch t # post'" by simp
    with assms(1) show ?thesis unfolding overlap_free_def by blast
  qed
qed

lemma invariant_start: "invariant (start q)"
  by (auto simp: invariant_def start_def enter_fetch_def overlap_free_def settled_by_def
      Cons_eq_append_conv)

lemma invariant_except: "invariant c \<Longrightarrow> invariant (except e c)"
  by (simp add: invariant_def except_def)

lemma invariant_enter_fetch:
  assumes "overlap_free (trace c)" and "settled_by (now c) (trace c)"
  shows "invariant (enter_fetch c)"
  using assms by (auto simp: invariant_def enter_fetch_def intro!: overlap_free_snoc)

lemma invariant_step: 
  assumes "invariant c" shows "invariant (step h bs poll s c)"
proof (cases "point c")
  case (Stopped r)
  with assms show ?thesis by (simp add: step_Stopped)
next
  case In_backoff
  with assms have o: "overlap_free (trace c)" and sb: "settled_by (now c) (trace c)"
    by (simp_all add: invariant_def)
  show ?thesis
  proof (cases s)
    case Cancel
    with In_backoff assms show ?thesis by (simp add: step_def invariant_except)
  next
    case Resume
    have "invariant (enter_fetch (c\<lparr>now := now c + poll\<rparr>))"
      by (rule invariant_enter_fetch) (use o sb in \<open>auto intro: settled_by_mono\<close>)
    with In_backoff Resume show ?thesis by (simp add: step_def)
  qed
next
  case (In_gather ks)
  with assms obtain tr where o: "overlap_free (trace c)"
    and tr: "trace c = tr @ [Dispatch (now c) ks]" and sb: "settled_by (now c) tr"
    by (auto simp: invariant_def)
  show ?thesis
  proof (cases "await_gather s ks")
    case (Inl e)
    with In_gather assms show ?thesis by (simp add: step_def invariant_except)
  next
    case (Inr rs)
    have "settled_by (now c + join_time ks) (trace c)"
      unfolding tr settled_by_snoc_Dispatch
      using sb by (auto intro: settled_by_mono simp: finish_le_join_time)
    then have "invariant (enter_fetch (c\<lparr>now := now c + join_time ks\<rparr>))"
      by (intro invariant_enter_fetch) (use o in simp_all)
    with In_gather Inr show ?thesis by (simp add: step_def)
  qed
next
  case In_fetch
  with assms have o: "overlap_free (trace c)" and sb: "settled_by (now c) (trace c)"
    by (simp_all add: invariant_def)
  obtain r q' where rb: "receive_batch s bs (queue c) = (r, q')" by (cases "receive_batch s bs (queue c)")
  show ?thesis
  proof (cases r)
    case (Inl e)
    have "invariant (c\<lparr>queue := q'\<rparr>)" using assms In_fetch by (simp add: invariant_def)
    with In_fetch rb Inl show ?thesis by (simp add: step_def invariant_except)
  next
    case (Inr batch)
    have sb': "settled_by (now c + fetch_latency) (trace c)"
      using sb by (auto intro: settled_by_mono)
    show ?thesis
    proof (cases "batch = []")
      case True
      with In_fetch rb Inr o sb' show ?thesis
        by (auto simp: step_def invariant_def Let_def intro!: overlap_free_snoc)
    next
      case False
      with In_fetch rb Inr o sb' show ?thesis
        by (auto simp: step_def invariant_def Let_def intro!: overlap_free_snoc)
    qed
  qed
qed

lemma invariant_fold_step: "invariant c \<Longrightarrow> invariant (fold (step h bs poll) env c)"
  by (induction env arbitrary: c) (simp_all add: invariant_step)

lemma invariant_run: "invariant (run env q h bs poll)"
  by (simp add: run_def invariant_fold_step invariant_start)

text \<open>
  Claim C8. In every run, when a \<open>receive_batch\<close> call starts, every handler
  invocation of every dispatch that the run started before it has reached its terminal
  state: the call starts at a tick \<open>t\<close> no earlier than the finishing tick of each.
\<close>

theorem no_overlap_between_batches:
  assumes "trace (run env q h bs poll) = pre @ Fetch t # post"
      and "Dispatch t0 ks \<in> set pre" and "k \<in> set ks"
  shows "t0 + finish k \<le> t"
proof -
  have "overlap_free (trace (run env q h bs poll))"
    using invariant_run [of env q h bs poll] by (simp add: invariant_def)
  with assms(1) have "settled_by t pre" unfolding overlap_free_def by blast
  with assms(2,3) show ?thesis unfolding settled_by_def by blast
qed

theorem no_overlap_between_batches_witness:
  "trace (run [Resume, Resume, Resume, Resume, Resume, Resume]
            \<lparr>messages = [''a'', ''b'', ''c'', ''d'', ''e'', ''f'', ''g'']\<rparr> example_handler 5 10)
   = [Fetch 0,
      Dispatch 1
       [\<lparr>finish = 2, outcome = None, on_cancel = Some (0, CancelledError)\<rparr>,
        \<lparr>finish = 2, outcome = None, on_cancel = Some (0, CancelledError)\<rparr>,
        \<lparr>finish = 2, outcome = None, on_cancel = Some (0, CancelledError)\<rparr>,
        \<lparr>finish = 2, outcome = None, on_cancel = Some (0, CancelledError)\<rparr>,
        \<lparr>finish = 2, outcome = None, on_cancel = Some (0, CancelledError)\<rparr>]]
     @ Fetch 3 #
       [Dispatch 4
         [\<lparr>finish = 2, outcome = None, on_cancel = Some (0, CancelledError)\<rparr>,
          \<lparr>finish = 2, outcome = None, on_cancel = Some (0, CancelledError)\<rparr>],
        Fetch 6, Backoff 7, Fetch 17]
   \<and> (1::nat) + finish \<lparr>finish = 2, outcome = None, on_cancel = Some (0, CancelledError)\<rparr> \<le> 3"
proof -
  have tr: "trace (run [Resume, Resume, Resume, Resume, Resume, Resume]
            \<lparr>messages = [''a'', ''b'', ''c'', ''d'', ''e'', ''f'', ''g'']\<rparr> example_handler 5 10)
   = [Fetch 0,
      Dispatch 1
       [\<lparr>finish = 2, outcome = None, on_cancel = Some (0, CancelledError)\<rparr>,
        \<lparr>finish = 2, outcome = None, on_cancel = Some (0, CancelledError)\<rparr>,
        \<lparr>finish = 2, outcome = None, on_cancel = Some (0, CancelledError)\<rparr>,
        \<lparr>finish = 2, outcome = None, on_cancel = Some (0, CancelledError)\<rparr>,
        \<lparr>finish = 2, outcome = None, on_cancel = Some (0, CancelledError)\<rparr>]]
     @ Fetch 3 #
       [Dispatch 4
         [\<lparr>finish = 2, outcome = None, on_cancel = Some (0, CancelledError)\<rparr>,
          \<lparr>finish = 2, outcome = None, on_cancel = Some (0, CancelledError)\<rparr>],
        Fetch 6, Backoff 7, Fetch 17]"
    by (simp add: run_def start_def enter_fetch_def step_def receive_batch_Resume
        fetch_latency_def join_time_def gather_def example_handler_def)
  have "(1::nat) + finish \<lparr>finish = 2, outcome = None, on_cancel = Some (0, CancelledError)\<rparr> \<le> 3"
    using no_overlap_between_batches [OF tr, of 1
        "[\<lparr>finish = 2, outcome = None, on_cancel = Some (0, CancelledError)\<rparr>,
          \<lparr>finish = 2, outcome = None, on_cancel = Some (0, CancelledError)\<rparr>,
          \<lparr>finish = 2, outcome = None, on_cancel = Some (0, CancelledError)\<rparr>,
          \<lparr>finish = 2, outcome = None, on_cancel = Some (0, CancelledError)\<rparr>,
          \<lparr>finish = 2, outcome = None, on_cancel = Some (0, CancelledError)\<rparr>]"
        "\<lparr>finish = 2, outcome = None, on_cancel = Some (0, CancelledError)\<rparr>"]
    by simp
  with tr show ?thesis by blast
qed




text \<open>
  Claim C4. When the loop waits at the join of a dispatch and the dispatch fails with
  an exception other than \<open>CancelledError\<close>, the function ends with that exception
  raised to its caller, whatever follows: from then on the queue is not touched and
  nothing is started, neither a retry nor another fetch.
\<close>

theorem handler_error_propagates:
  assumes "point (run pre q h bs poll) = In_gather ks"
      and "await_gather Resume ks = Inl e"
      and "e \<noteq> CancelledError"
  shows "process_queue_forever (pre @ Resume # rest) q h bs poll = Some (Raised e)
         \<and> run (pre @ Resume # rest) q h bs poll
             = (run pre q h bs poll)\<lparr>point := Stopped (Raised e)\<rparr>"
proof -
  have "run (pre @ Resume # rest) q h bs poll
        = fold (step h bs poll) rest (step h bs poll Resume (run pre q h bs poll))"
    by (simp add: run_append)
  also have "\<dots> = (run pre q h bs poll)\<lparr>point := Stopped (Raised e)\<rparr>"
    using assms(3)
    by (simp add: step_gather_failure [OF assms(1,2)] except_def
        fold_step_Stopped [where r = "Raised e"])
  finally show ?thesis
    by (simp add: process_queue_forever_def)
qed

theorem handler_error_propagates_witness:
  "point (run [Resume] \<lparr>messages = [''a'', ''b'', ''c'']\<rparr>
            (\<lambda>m. \<lparr>finish = 2, outcome = (if m = ''b'' then Some (HandlerError ''boom'') else None),
                  on_cancel = Some (0, CancelledError)\<rparr>)
            2 10)
     = In_gather [\<lparr>finish = 2, outcome = None, on_cancel = Some (0, CancelledError)\<rparr>,
                  \<lparr>finish = 2, outcome = Some (HandlerError ''boom''),
                        on_cancel = Some (0, CancelledError)\<rparr>]
   \<and> process_queue_forever [Resume, Resume, Resume, Resume] \<lparr>messages = [''a'', ''b'', ''c'']\<rparr>
        (\<lambda>m. \<lparr>finish = 2, outcome = (if m = ''b'' then Some (HandlerError ''boom'') else None),
              on_cancel = Some (0, CancelledError)\<rparr>)
        2 10
     = Some (Raised (HandlerError ''boom''))"
proof -
  have p: "point (run [Resume] \<lparr>messages = [''a'', ''b'', ''c'']\<rparr>
            (\<lambda>m. \<lparr>finish = 2, outcome = (if m = ''b'' then Some (HandlerError ''boom'') else None),
                  on_cancel = Some (0, CancelledError)\<rparr>)
            2 10)
     = In_gather [\<lparr>finish = 2, outcome = None, on_cancel = Some (0, CancelledError)\<rparr>,
                  \<lparr>finish = 2, outcome = Some (HandlerError ''boom''),
                        on_cancel = Some (0, CancelledError)\<rparr>]"
    by (simp add: run_def start_def enter_fetch_def step_def receive_batch_Resume numeral_eq_Suc)
  have g: "await_gather Resume [\<lparr>finish = 2, outcome = None,
        on_cancel = Some (0, CancelledError)\<rparr>,
                  \<lparr>finish = 2, outcome = Some (HandlerError ''boom''),
                        on_cancel = Some (0, CancelledError)\<rparr>]
             = Inl (HandlerError ''boom'')"
    by (simp add: gather_def)
  have "process_queue_forever ([Resume] @ Resume # [Resume, Resume])
        \<lparr>messages = [''a'', ''b'', ''c'']\<rparr>
        (\<lambda>m. \<lparr>finish = 2, outcome = (if m = ''b'' then Some (HandlerError ''boom'') else None),
              on_cancel = Some (0, CancelledError)\<rparr>)
        2 10
     = Some (Raised (HandlerError ''boom''))"
    using handler_error_propagates [OF p g, of "[Resume, Resume]"] by simp
  with p show ?thesis by simp
qed

end
